theory Spec2Isabelle
  imports Main "HOL-Library.AList"
begin

section \<open>The task queue of pueue (pueue/daemon/queue.py)\<close>

subsection \<open>Data\<close>

text \<open>
  Python values, as far as the queue handles them: strings (command, path, status, the
  empty placeholders), integers (a key, a return code), lists of keys (the field
  \<open>depd\<close>), booleans and \<open>None\<close> (what the methods return).
\<close>

datatype val = Str string | Num int | Keys "int list" | Bool bool | NoneVal

text \<open>
  A task is a Python dictionary with string keys. \<open>self.queue\<close> is a dictionary from
  integer keys to tasks; the code iterates over it, so it is kept as an association list
  in insertion order: \<open>self.queue[k]\<close> is \<open>map_of q k\<close> (KeyError when absent),
  \<open>self.queue[k] = v\<close> is \<open>AList.update k v q\<close>, \<open>del self.queue[k]\<close> is
  \<open>AList.delete k q\<close>, \<open>self.queue.keys()\<close> is \<open>map fst q\<close>. The store holds
  the contents of the task dictionaries. Which keys hold one and the same dictionary
  object matters in one place only, the argument of \<open>add_new\<close>, whose fields are
  assigned in place: there the keys holding that object are a parameter. \<open>clean\<close>
  assigns in place what depends on the record alone, \<open>switch\<close> stores copies and
  \<open>restart\<close> builds a new dictionary.
\<close>

type_synonym task = "string \<rightharpoonup> val"

type_synonym store = "(int \<times> task) list"

datatype exn = KeyError | TypeError | OSError

subsection \<open>Queue.next\<close>

text \<open>
  The loop of \<open>_depd_ok\<close> over the dependency keys. \<open>ok = ok and X\<close> evaluates
  \<open>X\<close> (and may raise KeyError on a record without \<open>status\<close>) only while \<open>ok\<close> holds.
\<close>

fun depd_loop :: "store \<Rightarrow> int list \<Rightarrow> bool \<Rightarrow> exn + bool" where
  "depd_loop q [] ok = Inr ok"
| "depd_loop q (d_key # ds) ok =
     (case map_of q d_key of
        None \<Rightarrow> depd_loop q ds ok
      | Some item \<Rightarrow>
          if ok then
            (case item ''status'' of
               None \<Rightarrow> Inl KeyError
             | Some v \<Rightarrow> depd_loop q ds (v = Str ''done''))
          else depd_loop q ds False)"

text \<open>
  \<open>_depd_ok\<close>. A \<open>depd\<close> that is a string is iterated character by character, no
  character is a key of the queue, and the answer is True; an integer, a boolean and
  \<open>None\<close> are not iterable.
\<close>

definition depd_ok :: "store \<Rightarrow> int \<Rightarrow> exn + bool" where
  "depd_ok q key =
     (case map_of q key of
        None \<Rightarrow> Inl KeyError
      | Some item \<Rightarrow>
          (case item ''depd'' of
             None \<Rightarrow> Inr True
           | Some v \<Rightarrow>
               if v = Keys [- 1] then Inr True
               else (case v of
                       Keys ds \<Rightarrow> depd_loop q ds True
                     | Str s \<Rightarrow> Inr True
                     | _ \<Rightarrow> Inl TypeError)))"

fun next_loop :: "store \<Rightarrow> int list \<Rightarrow> int option \<Rightarrow> exn + int option" where
  "next_loop q [] smallest = Inr smallest"
| "next_loop q (key # keys) smallest =
     (case map_of q key of
        None \<Rightarrow> Inl KeyError
      | Some item \<Rightarrow>
          (case item ''status'' of
             None \<Rightarrow> Inl KeyError
           | Some v \<Rightarrow>
               if v = Str ''queued'' then
                 (case depd_ok q key of
                    Inl e \<Rightarrow> Inl e
                  | Inr b \<Rightarrow>
                      if b then
                        (case smallest of
                           None \<Rightarrow> next_loop q keys (Some key)
                         | Some m \<Rightarrow>
                             if key < m then next_loop q keys (Some key)
                             else next_loop q keys smallest)
                      else next_loop q keys smallest)
               else next_loop q keys smallest))"

definition next_q :: "store \<Rightarrow> exn + int option" where
  "next_q q = next_loop q (map fst q) None"

subsection \<open>The queue object and its snapshot file\<close>

text \<open>
  The file \<open>config_dir/queue\<close> is absent, holds the pickle of a queue, or holds bytes that
  \<open>pickle.load\<close> rejects (an empty or truncated file among them).
\<close>

datatype content = Pickled store | Garbage

text \<open>
  The calls to the operating system and to pickle that can fail in a run: opening the file
  for reading, opening it for writing, removing it, \<open>pickle.dump\<close> into the open
  file, and closing the file that was written (the flush of what is still buffered).
\<close>

datatype fault = Open_rb | Open_wb | Os_remove | Pickle_dump | Close_wb

text \<open>
  The state a method runs in: the attributes \<open>queue\<close> and \<open>next_key\<close> of the
  object, the snapshot file, the lines printed so far, and the calls that fail.
\<close>

record qstate =
  queue :: store
  next_key :: int
  snapshot :: "content option"
  printed :: "string list"
  faults :: "fault set"

text \<open>
  A method returns a Python value or raises; either way it leaves a state behind, since
  the assignments made before an exception stay.
\<close>

type_synonym result = "(exn + val) \<times> qstate"

definition and_then :: "result \<Rightarrow> (qstate \<Rightarrow> result) \<Rightarrow> result" where
  "and_then r f = (case r of (Inl e, s) \<Rightarrow> (Inl e, s) | (Inr v, s) \<Rightarrow> f s)"

subsection \<open>Queue.read and Queue.write\<close>

definition read :: "qstate \<Rightarrow> result" where
  "read s =
     (case snapshot s of
        None \<Rightarrow> (Inr NoneVal, s\<lparr>queue := []\<rparr>)
      | Some c \<Rightarrow>
          if Open_rb \<in> faults s then (Inl OSError, s)
          else
            (case c of
               Pickled q \<Rightarrow> (Inr NoneVal, s\<lparr>queue := q\<rparr>)
             | Garbage \<Rightarrow>
                 (let s1 = s\<lparr>printed := printed s @ [''Queue file corrupted, deleting old queue'']\<rparr>
                  in if Os_remove \<in> faults s then (Inl OSError, s1)
                     else (Inr NoneVal, s1\<lparr>snapshot := None, queue := []\<rparr>))))"

text \<open>
  \<open>open(queue_path, 'wb+')\<close> stands before the \<open>try\<close>; once it has succeeded the
  file is empty until \<open>pickle.dump\<close> has written it. \<open>queue_file.close()\<close> stands
  after the \<open>try\<close>: when it fails the file is left unloadable and the error goes to
  the caller, whether or not \<open>pickle.dump\<close> had succeeded.
\<close>

definition write_q :: "qstate \<Rightarrow> result" where
  "write_q s =
     (if Open_wb \<in> faults s then (Inl OSError, s)
      else
        (let s1 = s\<lparr>snapshot := Some Garbage\<rparr>;
             s2 = (if Pickle_dump \<in> faults s
                   then s1\<lparr>printed := printed s1 @
                          [''Error while writing to queue file. Wrong file permissions?'']\<rparr>
                   else s1\<lparr>snapshot := Some (Pickled (queue s))\<rparr>)
         in if Close_wb \<in> faults s then (Inl OSError, s2\<lparr>snapshot := Some Garbage\<rparr>)
            else (Inr NoneVal, s2)))"

subsection \<open>Queue.reset, Queue.clean, Queue.clear\<close>

definition reset :: "qstate \<Rightarrow> result" where
  "reset s = write_q (s\<lparr>queue := [], next_key := 0\<rparr>)"

definition crashed :: "val list" where
  "crashed = [Str ''paused'', Str ''running'', Str ''stopping'', Str ''killing'']"

definition requeue :: "task \<Rightarrow> task" where
  "requeue item =
     item(''status'' \<mapsto> Str ''queued'', ''start'' \<mapsto> Str [], ''end'' \<mapsto> Str [])"

fun clean_items :: "store \<Rightarrow> (exn + val) \<times> store" where
  "clean_items [] = (Inr NoneVal, [])"
| "clean_items ((k, item) # rest) =
     (case item ''status'' of
        None \<Rightarrow> (Inl KeyError, (k, item) # rest)
      | Some v \<Rightarrow>
          (let item' = (if v \<in> set crashed then requeue item else item);
               (r, rest') = clean_items rest
           in (r, (k, item') # rest')))"

definition clean :: "qstate \<Rightarrow> result" where
  "clean s = (case clean_items (queue s) of (r, q') \<Rightarrow> (r, s\<lparr>queue := q'\<rparr>))"

definition finished :: "val list" where
  "finished = [Str ''done'', Str ''failed'']"

fun clear_loop :: "int list \<Rightarrow> store \<Rightarrow> (exn + val) \<times> store" where
  "clear_loop [] q = (Inr NoneVal, q)"
| "clear_loop (key # keys) q =
     (case map_of q key of
        None \<Rightarrow> (Inl KeyError, q)
      | Some item \<Rightarrow>
          (case item ''status'' of
             None \<Rightarrow> (Inl KeyError, q)
           | Some v \<Rightarrow>
               if v \<in> set finished then clear_loop keys (AList.delete key q)
               else clear_loop keys q))"

definition clear :: "qstate \<Rightarrow> result" where
  "clear s =
     (case clear_loop (map fst (queue s)) (queue s) of
        (r, q') \<Rightarrow> and_then (r, s\<lparr>queue := q'\<rparr>) write_q)"

subsection \<open>Queue.add_new, Queue.remove, Queue.restart, Queue.switch\<close>

text \<open>
  \<open>add_new\<close> stores the dictionary object it is given under \<open>next_key\<close> and then
  assigns seven fields of that object. \<open>held\<close> lists the keys of the queue whose value
  is this very object (none for a dictionary that was never stored): their records show
  the assigned fields too. It has no \<open>return\<close> statement.
\<close>

definition new_entry :: "task \<Rightarrow> task" where
  "new_entry command =
     command(''status'' \<mapsto> Str ''stashed'', ''returncode'' \<mapsto> Str [],
             ''stdout'' \<mapsto> Str [], ''stderr'' \<mapsto> Str [],
             ''start'' \<mapsto> Str [], ''end'' \<mapsto> Str [],
             ''depd'' \<mapsto> Keys [- 1])"

definition add_new :: "task \<Rightarrow> int list \<Rightarrow> qstate \<Rightarrow> result" where
  "add_new command held s =
     (let q1 = AList.update (next_key s) command (queue s);
          q2 = map (\<lambda>(k, item).
                 (k, if k = next_key s \<or> k \<in> set held then new_entry command else item)) q1
      in write_q (s\<lparr>queue := q2, next_key := next_key s + 1\<rparr>))"

definition remove :: "int \<Rightarrow> qstate \<Rightarrow> result" where
  "remove key s =
     (if map_of (queue s) key \<noteq> None
      then and_then (write_q (s\<lparr>queue := AList.delete key (queue s)\<rparr>))
             (\<lambda>s'. (Inr (Bool True), s'))
      else (Inr (Bool False), s))"

definition restart :: "int \<Rightarrow> qstate \<Rightarrow> result" where
  "restart key s =
     (case map_of (queue s) key of
        None \<Rightarrow> (Inr (Bool False), s)
      | Some item \<Rightarrow>
          (case item ''status'' of
             None \<Rightarrow> (Inl KeyError, s)
           | Some v \<Rightarrow>
               if v \<in> set [Str ''failed'', Str ''done''] then
                 (case item ''command'' of
                    None \<Rightarrow> (Inl KeyError, s)
                  | Some c \<Rightarrow>
                      (case item ''path'' of
                         None \<Rightarrow> (Inl KeyError, s)
                       | Some p \<Rightarrow>
                           and_then
                             (and_then (add_new [''command'' \<mapsto> c, ''path'' \<mapsto> p] [] s)
                                write_q)
                             (\<lambda>s'. (Inr (Bool True), s'))))
               else (Inr (Bool False), s)))"

definition allowed_states :: "val list" where
  "allowed_states = [Str ''queued'', Str ''stashed'']"

definition switch :: "int \<Rightarrow> int \<Rightarrow> qstate \<Rightarrow> result" where
  "switch first second s =
     (case map_of (queue s) first of
        None \<Rightarrow> (Inr (Bool False), s)
      | Some a \<Rightarrow>
          (case map_of (queue s) second of
             None \<Rightarrow> (Inr (Bool False), s)
           | Some b \<Rightarrow>
               (case a ''status'' of
                  None \<Rightarrow> (Inl KeyError, s)
                | Some va \<Rightarrow>
                    if va \<in> set allowed_states then
                      (case b ''status'' of
                         None \<Rightarrow> (Inl KeyError, s)
                       | Some vb \<Rightarrow>
                           if vb \<in> set allowed_states then
                             and_then
                               (write_q (s\<lparr>queue :=
                                  AList.update first b (AList.update second a (queue s))\<rparr>))
                               (\<lambda>s'. (Inr (Bool True), s'))
                           else (Inr (Bool False), s))
                    else (Inr (Bool False), s))))"

subsection \<open>Queue.__init__\<close>

definition init :: "qstate \<Rightarrow> result" where
  "init s =
     and_then (and_then (read s) clean)
       (\<lambda>s'. (Inr NoneVal,
          s'\<lparr>next_key := (if length (queue s') > 0
                            then Max (set (map fst (queue s'))) + 1 else 0)\<rparr>))"

subsection \<open>Runs of operations\<close>

datatype op = Add_new task "int list" | Remove int | Restart int | Switch int int
  | Clear | Reset | Clean

fun exec :: "op \<Rightarrow> qstate \<Rightarrow> result" where
  "exec (Add_new command held) s = add_new command held s"
| "exec (Remove key) s = remove key s"
| "exec (Restart key) s = restart key s"
| "exec (Switch first second) s = switch first second s"
| "exec Clear s = clear s"
| "exec Reset s = reset s"
| "exec Clean s = clean s"

text \<open>
  The keys a call has assigned, read off the store: the keys of the store after the call
  that were not in the store before it and now hold the entry.
\<close>

definition stored_keys :: "qstate \<Rightarrow> qstate \<Rightarrow> task \<Rightarrow> int list" where
  "stored_keys s s' entry =
     filter (\<lambda>k. map_of (queue s) k = None \<and> map_of (queue s') k = Some entry)
       (map fst (queue s'))"

text \<open>
  The keys assigned by the \<open>add_new\<close> calls of a run of operations, in the order of the
  calls. The run goes on after an operation that raised.
\<close>

fun assigned_keys :: "op list \<Rightarrow> qstate \<Rightarrow> int list" where
  "assigned_keys [] s = []"
| "assigned_keys (Add_new command held # ops) s =
     stored_keys s (snd (add_new command held s)) (new_entry command) @
     assigned_keys ops (snd (add_new command held s))"
| "assigned_keys (op # ops) s = assigned_keys ops (snd (exec op s))"

section \<open>What the specification says\<close>

text \<open>
  The stores of the specification: every record carries a \<open>status\<close>, and its dependency
  field, when it has one, is a list of keys.
\<close>

definition task_ok :: "task \<Rightarrow> bool" where
  "task_ok t \<longleftrightarrow>
     t ''status'' \<noteq> None \<and>
     (case t ''depd'' of None \<Rightarrow> True | Some (Keys ds) \<Rightarrow> True | Some _ \<Rightarrow> False)"

definition store_ok :: "store \<Rightarrow> bool" where
  "store_ok q \<longleftrightarrow> list_all (\<lambda>(k, t). task_ok t) q"

text \<open>
  A dependency key is satisfied when it is no longer in the store or its record is done.
  A record is eligible when it is queued and its dependency set is the sentinel or names
  satisfied keys only.
\<close>

definition dep_done :: "store \<Rightarrow> int \<Rightarrow> bool" where
  "dep_done q d \<longleftrightarrow>
     (case map_of q d of None \<Rightarrow> True | Some t \<Rightarrow> t ''status'' = Some (Str ''done''))"

definition eligible :: "store \<Rightarrow> int \<Rightarrow> bool" where
  "eligible q k \<longleftrightarrow>
     (case map_of q k of
        None \<Rightarrow> False
      | Some t \<Rightarrow>
          t ''status'' = Some (Str ''queued'') \<and>
          (case t ''depd'' of
             Some (Keys ds) \<Rightarrow> ds = [- 1] \<or> list_all (dep_done q) ds
           | _ \<Rightarrow> True))"

text \<open>The runs of claim C2: calls of \<open>add_new\<close> and \<open>remove\<close> only.\<close>

definition add_or_remove :: "op \<Rightarrow> bool" where
  "add_or_remove x = (case x of Add_new c h \<Rightarrow> True | Remove k \<Rightarrow> True | _ \<Rightarrow> False)"

definition is_add :: "op \<Rightarrow> bool" where
  "is_add x = (case x of Add_new c h \<Rightarrow> True | _ \<Rightarrow> False)"

text \<open>
  What \<open>clean()\<close> makes of one record: a record that is paused, running, stopping or
  killing becomes queued with \<open>start\<close> and \<open>end\<close> emptied, any other record stays.
\<close>

definition clean_task :: "task \<Rightarrow> task" where
  "clean_task t =
     (if t ''status'' \<in> {Some (Str ''paused''), Some (Str ''running''),
                          Some (Str ''stopping''), Some (Str ''killing'')}
      then t(''status'' \<mapsto> Str ''queued'', ''start'' \<mapsto> Str [], ''end'' \<mapsto> Str [])
      else t)"

text \<open>
  The invariant of the allocator: every key in the store is below \<open>next_key\<close>.
\<close>

definition keys_below :: "qstate \<Rightarrow> bool" where
  "keys_below s \<longleftrightarrow> list_all (\<lambda>k. k < next_key s) (map fst (queue s))"

text \<open>
  \<open>restart\<close> is for records that are done or failed, \<open>switch\<close> for records that
  are queued or stashed.
\<close>

definition restartable :: "store \<Rightarrow> int \<Rightarrow> bool" where
  "restartable q k \<longleftrightarrow>
     (case map_of q k of
        None \<Rightarrow> False
      | Some t \<Rightarrow> t ''status'' \<in> {Some (Str ''done''), Some (Str ''failed'')})"

definition switchable :: "store \<Rightarrow> int \<Rightarrow> bool" where
  "switchable q k \<longleftrightarrow>
     (case map_of q k of
        None \<Rightarrow> False
      | Some t \<Rightarrow> t ''status'' \<in> {Some (Str ''queued''), Some (Str ''stashed'')})"

section \<open>Example states\<close>

definition example_task :: "string \<Rightarrow> int list \<Rightarrow> task" where
  "example_task st ds =
     [''command'' \<mapsto> Str ''ls'', ''path'' \<mapsto> Str ''/tmp'', ''status'' \<mapsto> Str st,
      ''depd'' \<mapsto> Keys ds]"

definition example_store :: store where
  "example_store =
     [(0, example_task ''done'' [- 1]), (1, example_task ''queued'' [0]),
      (2, example_task ''queued'' [- 1])]"

definition example_state :: qstate where
  "example_state =
     \<lparr>queue = example_store, next_key = 3, snapshot = None, printed = [], faults = {}\<rparr>"

definition empty_state :: qstate where
  "empty_state = \<lparr>queue = [], next_key = 0, snapshot = None, printed = [], faults = {}\<rparr>"

definition example_command :: task where
  "example_command = [''command'' \<mapsto> Str ''echo hi'', ''path'' \<mapsto> Str ''/tmp'']"

definition crashed_state :: qstate where
  "crashed_state =
     \<lparr>queue = [(0, example_task ''running'' [- 1]), (1, example_task ''done'' [- 1])],
      next_key = 2, snapshot = None, printed = [], faults = {}\<rparr>"

definition done_state :: qstate where
  "done_state =
     \<lparr>queue = [(0, example_task ''done'' [- 1]), (1, example_task ''queued'' [0])],
      next_key = 2, snapshot = None, printed = [], faults = {}\<rparr>"

definition saved_state :: qstate where
  "saved_state =
     \<lparr>queue = [], next_key = 0,
      snapshot = Some (Pickled [(0, example_task ''done'' [- 1]),
                               (4, example_task ''running'' [- 1])]),
      printed = [], faults = {}\<rparr>"

definition legacy_task :: task where
  "legacy_task = [''command'' \<mapsto> Str ''ls'', ''path'' \<mapsto> Str ''/tmp'', ''status'' \<mapsto> Str ''queued'']"

definition legacy_store :: store where
  "legacy_store = [(0, example_task ''running'' [- 1]), (1, legacy_task)]"

section \<open>The dependency resolver\<close>

lemma store_ok_lookup: "store_ok q \<Longrightarrow> map_of q k = Some t \<Longrightarrow> task_ok t"
  by (auto simp: store_ok_def list_all_iff dest: map_of_SomeD)

lemma example_store_ok: "store_ok example_store"
  by (simp add: store_ok_def example_store_def task_ok_def example_task_def)

lemma depd_loop_ok:
  "store_ok q \<Longrightarrow> depd_loop q ds ok = Inr (ok \<and> list_all (dep_done q) ds)"
proof (induction ds arbitrary: ok)
  case Nil
  then show ?case by simp
next
  case (Cons d ds)
  show ?case
  proof (cases "map_of q d")
    case None
    then show ?thesis using Cons by (simp add: dep_done_def)
  next
    case (Some t)
    then have "task_ok t" using Cons.prems store_ok_lookup by blast
    then obtain v where "t ''status'' = Some v" by (auto simp: task_ok_def)
    then show ?thesis using Some Cons by (auto simp: dep_done_def)
  qed
qed

lemma depd_ok_eligible:
  assumes "store_ok q" "map_of q k = Some t" "t ''status'' = Some (Str ''queued'')"
  shows "depd_ok q k = Inr (eligible q k)"
proof -
  have "task_ok t" using assms store_ok_lookup by blast
  then show ?thesis using assms
    by (auto simp: depd_ok_def eligible_def task_ok_def depd_loop_ok
        split: option.splits val.splits)
qed

lemma next_loop_inv:
  assumes "store_ok q" "set keys \<subseteq> fst ` set q"
    and "case sm of None \<Rightarrow> True | Some m \<Rightarrow> eligible q m"
  shows "\<exists>r. next_loop q keys sm = Inr r \<and>
     (case r of
        None \<Rightarrow> sm = None \<and> (\<forall>k\<in>set keys. \<not> eligible q k)
      | Some k \<Rightarrow> eligible q k \<and> (k \<in> set keys \<or> sm = Some k) \<and>
          (\<forall>k'\<in>set keys. eligible q k' \<longrightarrow> k \<le> k') \<and>
          (\<forall>m. sm = Some m \<longrightarrow> k \<le> m))"
  using assms
proof (induction keys arbitrary: sm)
  case Nil
  then show ?case by (auto split: option.splits)
next
  case (Cons key keys)
  from Cons.prems(2) obtain t where t: "map_of q key = Some t"
    by (cases "map_of q key") (auto simp: map_of_eq_None_iff)
  then have "task_ok t" using Cons.prems store_ok_lookup by blast
  then obtain v where v: "t ''status'' = Some v" by (auto simp: task_ok_def)
  have sub: "set keys \<subseteq> fst ` set q" using Cons.prems by simp
  show ?case
  proof (cases "v = Str ''queued'' \<and> eligible q key")
    case False
    then have ne: "\<not> eligible q key \<or> v \<noteq> Str ''queued''" by auto
    have ne': "\<not> eligible q key" using ne t v by (auto simp: eligible_def)
    have step: "next_loop q (key # keys) sm = next_loop q keys sm"
      using t v ne' depd_ok_eligible[OF Cons.prems(1) t] by auto
    from Cons.IH[OF Cons.prems(1) sub Cons.prems(3)] obtain r where
      r: "next_loop q keys sm = Inr r"
      "(case r of
        None \<Rightarrow> sm = None \<and> (\<forall>k\<in>set keys. \<not> eligible q k)
      | Some k \<Rightarrow> eligible q k \<and> (k \<in> set keys \<or> sm = Some k) \<and>
          (\<forall>k'\<in>set keys. eligible q k' \<longrightarrow> k \<le> k') \<and>
          (\<forall>m. sm = Some m \<longrightarrow> k \<le> m))" by blast
    show ?thesis using r ne' step by (auto split: option.splits)
  next
    case True
    then have el: "eligible q key" and vq: "v = Str ''queued''" by auto
    have dk: "depd_ok q key = Inr True"
      using depd_ok_eligible[OF Cons.prems(1) t] v vq el by simp
    define sm' where
      "sm' = (case sm of None \<Rightarrow> Some key | Some m \<Rightarrow> if key < m then Some key else sm)"
    have step: "next_loop q (key # keys) sm = next_loop q keys sm'"
      using t v vq dk by (auto simp: sm'_def split: option.splits)
    have pre: "case sm' of None \<Rightarrow> True | Some m \<Rightarrow> eligible q m"
      using Cons.prems(3) el by (auto simp: sm'_def split: option.splits)
    from Cons.IH[OF Cons.prems(1) sub pre] obtain r where
      r: "next_loop q keys sm' = Inr r"
      "(case r of
        None \<Rightarrow> sm' = None \<and> (\<forall>k\<in>set keys. \<not> eligible q k)
      | Some k \<Rightarrow> eligible q k \<and> (k \<in> set keys \<or> sm' = Some k) \<and>
          (\<forall>k'\<in>set keys. eligible q k' \<longrightarrow> k \<le> k') \<and>
          (\<forall>m. sm' = Some m \<longrightarrow> k \<le> m))" by blast
    show ?thesis using r step el by (auto simp: sm'_def split: option.splits if_splits)
  qed
qed

lemma next_q_least:
  assumes "store_ok q"
  shows "\<exists>r. next_q q = Inr r \<and>
     (case r of
        None \<Rightarrow> (\<forall>k. \<not> eligible q k)
      | Some k \<Rightarrow> eligible q k \<and> (\<forall>k'. eligible q k' \<longrightarrow> k \<le> k'))"
proof -
  have el_key: "\<And>k. eligible q k \<Longrightarrow> k \<in> set (map fst q)"
  proof -
    fix k assume "eligible q k"
    then obtain t where "map_of q k = Some t"
      by (auto simp: eligible_def split: option.splits)
    then have "(k, t) \<in> set q" by (rule map_of_SomeD)
    then show "k \<in> set (map fst q)" by force
  qed
  from next_loop_inv[OF assms, of "map fst q" None] obtain r where
    r: "next_loop q (map fst q) None = Inr r"
      "(case r of
        None \<Rightarrow> (\<forall>k\<in>set (map fst q). \<not> eligible q k)
      | Some k \<Rightarrow> eligible q k \<and> (k \<in> set (map fst q) \<or> None = Some k) \<and>
          (\<forall>k'\<in>set (map fst q). eligible q k' \<longrightarrow> k \<le> k') \<and>
          (\<forall>m. None = Some m \<longrightarrow> k \<le> m))" by (auto split: option.splits)
  show ?thesis using r el_key unfolding next_q_def
    by (cases r) auto
qed

text \<open>
  Claim C1. On a store of the specification, \<open>next()\<close> returns without raising; it returns
  a key exactly when some record is eligible (queued, and its dependency set is the
  sentinel or every dependency key still in the store is done), that key is eligible and
  no eligible key is smaller; otherwise it returns none.
\<close>

theorem next_smallest_eligible:
  assumes "store_ok q"
  shows "\<exists>r. next_q q = Inr r \<and>
     (case r of
        None \<Rightarrow> (\<forall>k. \<not> eligible q k)
      | Some k \<Rightarrow> eligible q k \<and> (\<forall>k'. eligible q k' \<longrightarrow> k \<le> k'))"
  using assms by (rule next_q_least)

theorem next_smallest_eligible_witness:
  "store_ok example_store \<and>
   (\<exists>r. next_q example_store = Inr r \<and>
     (case r of
        None \<Rightarrow> (\<forall>k. \<not> eligible example_store k)
      | Some k \<Rightarrow> eligible example_store k \<and>
          (\<forall>k'. eligible example_store k' \<longrightarrow> k \<le> k')))"
  using example_store_ok next_smallest_eligible[OF example_store_ok] by (rule conjI)

section \<open>Persistence\<close>

lemma write_q_fst:
  "fst (write_q s) =
     (if Open_wb \<in> faults s \<or> Close_wb \<in> faults s then Inl OSError else Inr NoneVal)"
  by (simp add: write_q_def Let_def)

lemma write_q_keeps:
  "queue (snd (write_q s)) = queue s" "next_key (snd (write_q s)) = next_key s"
  "faults (snd (write_q s)) = faults s"
  by (simp_all add: write_q_def Let_def)

lemma write_q_snapshot:
  "Open_wb \<notin> faults s \<Longrightarrow> Pickle_dump \<notin> faults s \<Longrightarrow> Close_wb \<notin> faults s \<Longrightarrow>
   snapshot (snd (write_q s)) = Some (Pickled (queue s))"
  by (simp add: write_q_def Let_def)

lemma and_then_snd_ret: "snd (and_then r (\<lambda>s'. (x, s'))) = snd r"
  by (cases r; cases "fst r") (auto simp: and_then_def)

text \<open>
  What \<open>write\<close> does do: it never changes \<open>queue\<close> or \<open>next_key\<close>; once the file is
  open and unless closing it fails it returns, and a failing \<open>pickle.dump\<close> is only
  printed.
\<close>

lemma write_effect:
  "queue (snd (write_q s)) = queue s \<and> next_key (snd (write_q s)) = next_key s \<and>
   (Open_wb \<notin> faults s \<and> Close_wb \<notin> faults s \<longrightarrow> fst (write_q s) = Inr NoneVal) \<and>
   (Open_wb \<notin> faults s \<and> Pickle_dump \<in> faults s \<longrightarrow>
      printed (snd (write_q s)) =
        printed s @ [''Error while writing to queue file. Wrong file permissions?''])"
  by (simp add: write_q_def Let_def)

text \<open>
  Claim C7. Saving never raises on a serialization or I/O failure. The code opens the file
  before its \<open>try\<close>: when the file cannot be opened for writing, \<open>write\<close> raises
  OSError instead of printing its warning.
\<close>

theorem write_raises_when_open_fails:
  "fst (write_q (example_state\<lparr>faults := {Open_wb}\<rparr>)) = Inl OSError"
  by (simp add: write_q_def example_state_def)




section \<open>Key allocation\<close>

lemma map_of_map_key:
  "map_of (map (\<lambda>(k, v). (k, f k v)) q) k = map_option (f k) (map_of q k)"
  by (induction q) auto

lemma map_fst_map_key: "map fst (map (\<lambda>(k, v). (k, f k v)) q) = map fst q"
  by (induction q) auto

lemma add_new_keeps:
  "queue (snd (add_new c h s)) =
     map (\<lambda>(k, item). (k, if k = next_key s \<or> k \<in> set h then new_entry c else item))
       (AList.update (next_key s) c (queue s))"
  "faults (snd (add_new c h s)) = faults s"
  by (simp_all add: add_new_def write_q_keeps Let_def)

lemma add_new_next_key: "next_key (snd (add_new c h s)) = next_key s + 1"
  by (simp add: add_new_def write_q_keeps Let_def)

lemma add_new_fst:
  "fst (add_new c h s) =
     (if Open_wb \<in> faults s \<or> Close_wb \<in> faults s then Inl OSError else Inr NoneVal)"
  by (simp add: add_new_def write_q_fst Let_def)

lemma add_new_lookup:
  "map_of (queue (snd (add_new c h s))) k =
     (if k = next_key s then Some (new_entry c)
      else if k \<in> set h then map_option (\<lambda>item. new_entry c) (map_of (queue s) k)
      else map_of (queue s) k)"
  by (cases "map_of (queue s) k") (auto simp: add_new_keeps map_of_map_key update_conv')

lemma add_new_keys:
  "map fst (queue (snd (add_new c h s))) = map fst (AList.update (next_key s) c (queue s))"
  by (auto simp: add_new_keeps)

text \<open>
  What the call does to the other keys: a key holding the object passed shows the new
  entry, any other key keeps its record.
\<close>

lemma add_new_others:
  "k \<noteq> next_key s \<Longrightarrow>
   map_of (queue (snd (add_new c h s))) k =
     (if k \<in> set h \<and> map_of (queue s) k \<noteq> None then Some (new_entry c)
      else map_of (queue s) k)"
  by (cases "map_of (queue s) k") (simp_all add: add_new_lookup)

lemma remove_next_key: "next_key (snd (remove k s)) = next_key s"
  by (simp add: remove_def and_then_snd_ret write_q_keeps)

text \<open>
  Claim C3, as the code has it. \<open>add_new\<close> stores the dictionary it is given under the
  current \<open>next_key\<close> with status stashed, empty returncode, stdout, stderr, start and
  end, and the sentinel as dependency list; \<open>next_key\<close> grows by one; the snapshot
  file holds the new queue when it could be opened, dumped and closed; and the call
  returns \<open>None\<close>, not the key, when the file could be opened and closed.
\<close>

theorem add_new_effect:
  "map_of (queue (snd (add_new command held s))) (next_key s) = Some (new_entry command) \<and>
   new_entry command = command(''status'' \<mapsto> Str ''stashed'', ''returncode'' \<mapsto> Str [],
             ''stdout'' \<mapsto> Str [], ''stderr'' \<mapsto> Str [],
             ''start'' \<mapsto> Str [], ''end'' \<mapsto> Str [],
             ''depd'' \<mapsto> Keys [- 1]) \<and>
   next_key (snd (add_new command held s)) = next_key s + 1 \<and>
   (Open_wb \<notin> faults s \<and> Pickle_dump \<notin> faults s \<and> Close_wb \<notin> faults s \<longrightarrow>
      snapshot (snd (add_new command held s)) =
        Some (Pickled (queue (snd (add_new command held s))))) \<and>
   (Open_wb \<notin> faults s \<and> Close_wb \<notin> faults s \<longrightarrow>
      fst (add_new command held s) = Inr NoneVal)"
proof -
  have "Open_wb \<notin> faults s \<Longrightarrow> Pickle_dump \<notin> faults s \<Longrightarrow> Close_wb \<notin> faults s \<Longrightarrow>
      snapshot (snd (add_new command held s)) =
        Some (Pickled (queue (snd (add_new command held s))))"
    by (simp add: add_new_def write_q_keeps write_q_snapshot Let_def)
  then show ?thesis
    by (simp add: add_new_lookup add_new_next_key add_new_fst new_entry_def)
qed

theorem add_new_effect_witness:
  "Open_wb \<notin> faults empty_state \<and> Pickle_dump \<notin> faults empty_state \<and>
   Close_wb \<notin> faults empty_state \<and>
   map_of (queue (snd (add_new example_command [] empty_state))) (next_key empty_state) =
     Some (new_entry example_command) \<and>
   next_key (snd (add_new example_command [] empty_state)) = next_key empty_state + 1 \<and>
   snapshot (snd (add_new example_command [] empty_state)) =
     Some (Pickled (queue (snd (add_new example_command [] empty_state)))) \<and>
   fst (add_new example_command [] empty_state) = Inr NoneVal"
proof -
  have h: "Open_wb \<notin> faults empty_state \<and> Pickle_dump \<notin> faults empty_state \<and>
      Close_wb \<notin> faults empty_state"
    by (simp add: empty_state_def)
  show ?thesis using h add_new_effect[of example_command "[]" empty_state] by blast
qed

text \<open>
  Claim C3 as the specification words it fails: the call on the empty store assigns key 0
  and does not return it.
\<close>

theorem add_new_returns_none_counterexample:
  "fst (add_new example_command [] empty_state) = Inr NoneVal \<and>
   fst (add_new example_command [] empty_state) \<noteq> Inr (Num (next_key empty_state))"
  by (simp add: add_new_fst empty_state_def)

section \<open>Crash recovery\<close>

lemma clean_items_ok:
  "store_ok q \<Longrightarrow> clean_items q = (Inr NoneVal, map (\<lambda>(k, t). (k, clean_task t)) q)"
proof (induction q)
  case Nil
  then show ?case by simp
next
  case (Cons x q)
  obtain k t where x: "x = (k, t)" by (cases x)
  from Cons.prems x have ok: "task_ok t" and rest: "store_ok q"
    by (simp_all add: store_ok_def)
  from ok obtain v where v: "t ''status'' = Some v" by (auto simp: task_ok_def)
  have "(if v \<in> set crashed then requeue t else t) = clean_task t"
    using v by (auto simp: clean_task_def crashed_def requeue_def)
  then show ?case using x v Cons.IH[OF rest] by simp
qed

text \<open>
  Claim C8. On a store of the specification \<open>clean()\<close> returns without raising and
  replaces every record that is paused, running, stopping or killing by the same record
  with status queued and empty start and end; every other record, the order of the keys,
  \<open>next_key\<close>, the snapshot file and the output stay as they were: nothing is persisted.
\<close>

theorem clean_requeues:
  assumes "store_ok (queue s)"
  shows "clean s =
      (Inr NoneVal, s\<lparr>queue := map (\<lambda>(k, t). (k, clean_task t)) (queue s)\<rparr>) \<and>
    snapshot (snd (clean s)) = snapshot s \<and> printed (snd (clean s)) = printed s \<and>
    (\<forall>k. map_of (queue (snd (clean s))) k = map_option clean_task (map_of (queue s) k))"
proof -
  have eq: "clean s =
      (Inr NoneVal, s\<lparr>queue := map (\<lambda>(k, t). (k, clean_task t)) (queue s)\<rparr>)"
    using clean_items_ok[OF assms] by (simp add: clean_def)
  have "map_of (map (\<lambda>(k, t). (k, clean_task t)) (queue s)) k =
      map_option clean_task (map_of (queue s) k)" for k
    by (induction "queue s" arbitrary: s) (simp_all add: map_of_map)
  then show ?thesis using eq by simp
qed

theorem clean_requeues_witness:
  "store_ok (queue crashed_state) \<and>
   clean crashed_state = (Inr NoneVal,
     crashed_state\<lparr>queue := map (\<lambda>(k, t). (k, clean_task t)) (queue crashed_state)\<rparr>) \<and>
    snapshot (snd (clean crashed_state)) = snapshot crashed_state \<and>
    printed (snd (clean crashed_state)) = printed crashed_state \<and>
    (\<forall>k. map_of (queue (snd (clean crashed_state))) k =
       map_option clean_task (map_of (queue crashed_state) k))"
proof -
  have h: "store_ok (queue crashed_state)"
    by (simp add: crashed_state_def store_ok_def task_ok_def example_task_def)
  show ?thesis using h clean_requeues[OF h] by (rule conjI)
qed

section \<open>Restarting and reordering\<close>

lemma and_then_write_keeps:
  "queue (snd (and_then r write_q)) = queue (snd r)"
  "next_key (snd (and_then r write_q)) = next_key (snd r)"
  "faults (snd (and_then r write_q)) = faults (snd r)"
  by (cases r; cases "fst r"; simp add: and_then_def write_q_keeps)+

lemma and_then_fst_ret:
  "fst (and_then r (\<lambda>s'. (Inr x, s'))) = (case fst r of Inl e \<Rightarrow> Inl e | Inr v \<Rightarrow> Inr x)"
  by (cases r; cases "fst r") (auto simp: and_then_def)

lemma and_then_write_fst:
  "fst (and_then r write_q) =
     (case fst r of Inl e \<Rightarrow> Inl e
      | Inr v \<Rightarrow>
          if Open_wb \<in> faults (snd r) \<or> Close_wb \<in> faults (snd r) then Inl OSError
          else Inr NoneVal)"
  by (cases r; cases "fst r") (auto simp: and_then_def write_q_fst)

lemma keys_below_fresh: "keys_below s \<Longrightarrow> map_of (queue s) (next_key s) = None"
  by (auto simp: keys_below_def list_all_iff map_of_eq_None_iff)

text \<open>
  Claim C4. On a store of the specification \<open>restart(key)\<close> returns False and changes
  nothing unless the key is present with status done or failed. When it is (the record
  holding a command and a path, the keys of the store below \<open>next_key\<close>), the key
  \<open>next_key\<close> is fresh and receives a record made of the original's command and path
  only, with status stashed, empty returncode, stdout, stderr, start and end, and the
  sentinel as dependencies; \<open>next_key\<close> grows by one; the original record and every
  other record stay as they were; the call returns True when the file could be opened
  and closed.
\<close>

theorem restart_effect:
  assumes "store_ok (queue s)"
  shows "(\<not> restartable (queue s) key \<longrightarrow> restart key s = (Inr (Bool False), s)) \<and>
    (\<forall>t c p. map_of (queue s) key = Some t \<and> restartable (queue s) key \<and>
        t ''command'' = Some c \<and> t ''path'' = Some p \<and> keys_below s \<longrightarrow>
      map_of (queue s) (next_key s) = None \<and>
      map_of (queue (snd (restart key s))) (next_key s) =
        Some [''command'' \<mapsto> c, ''path'' \<mapsto> p, ''status'' \<mapsto> Str ''stashed'',
              ''returncode'' \<mapsto> Str [], ''stdout'' \<mapsto> Str [], ''stderr'' \<mapsto> Str [],
              ''start'' \<mapsto> Str [], ''end'' \<mapsto> Str [], ''depd'' \<mapsto> Keys [- 1]] \<and>
      next_key (snd (restart key s)) = next_key s + 1 \<and>
      map_of (queue (snd (restart key s))) key = Some t \<and>
      (\<forall>k. k \<noteq> next_key s \<longrightarrow>
         map_of (queue (snd (restart key s))) k = map_of (queue s) k) \<and>
      (Open_wb \<notin> faults s \<and> Close_wb \<notin> faults s \<longrightarrow>
         fst (restart key s) = Inr (Bool True)))"
proof (intro conjI allI impI)
  assume nr: "\<not> restartable (queue s) key"
  show "restart key s = (Inr (Bool False), s)"
  proof (cases "map_of (queue s) key")
    case None
    then show ?thesis by (simp add: restart_def)
  next
    case (Some t)
    then have "task_ok t" using assms store_ok_lookup by blast
    then obtain v where v: "t ''status'' = Some v" by (auto simp: task_ok_def)
    then show ?thesis using Some nr by (auto simp: restart_def restartable_def)
  qed
next
  fix t c p
  assume h: "map_of (queue s) key = Some t \<and> restartable (queue s) key \<and>
        t ''command'' = Some c \<and> t ''path'' = Some p \<and> keys_below s"
  then have fresh: "map_of (queue s) (next_key s) = None" using keys_below_fresh by blast
  then have ne: "key \<noteq> next_key s" using h by auto
  let ?e = "[''command'' \<mapsto> c, ''path'' \<mapsto> p]"
  have r: "restart key s =
      and_then (and_then (add_new ?e [] s) write_q) (\<lambda>s'. (Inr (Bool True), s'))"
    using h by (auto simp: restart_def restartable_def)
  have q: "map_of (queue (snd (restart key s))) k =
      (if k = next_key s then Some (new_entry ?e) else map_of (queue s) k)" for k
    by (simp add: r and_then_snd_ret and_then_write_keeps add_new_lookup)
  show "map_of (queue s) (next_key s) = None" by (rule fresh)
  show "map_of (queue (snd (restart key s))) (next_key s) =
        Some [''command'' \<mapsto> c, ''path'' \<mapsto> p, ''status'' \<mapsto> Str ''stashed'',
              ''returncode'' \<mapsto> Str [], ''stdout'' \<mapsto> Str [], ''stderr'' \<mapsto> Str [],
              ''start'' \<mapsto> Str [], ''end'' \<mapsto> Str [], ''depd'' \<mapsto> Keys [- 1]]"
    by (simp add: q new_entry_def)
  show "next_key (snd (restart key s)) = next_key s + 1"
    by (simp add: r and_then_snd_ret and_then_write_keeps add_new_next_key)
  show "map_of (queue (snd (restart key s))) key = Some t"
    using ne h by (simp add: q)
  show "\<And>k. k \<noteq> next_key s \<Longrightarrow>
         map_of (queue (snd (restart key s))) k = map_of (queue s) k"
    by (simp add: q)
  show "Open_wb \<notin> faults s \<and> Close_wb \<notin> faults s \<Longrightarrow>
      fst (restart key s) = Inr (Bool True)"
    by (simp add: r and_then_fst_ret and_then_write_fst add_new_fst add_new_keeps)
qed

theorem restart_effect_witness:
  "store_ok (queue done_state) \<and> \<not> restartable (queue done_state) 1 \<and>
   restart 1 done_state = (Inr (Bool False), done_state) \<and>
   map_of (queue done_state) 0 = Some (example_task ''done'' [- 1]) \<and>
   restartable (queue done_state) 0 \<and> keys_below done_state \<and>
   map_of (queue (snd (restart 0 done_state))) 2 =
        Some [''command'' \<mapsto> Str ''ls'', ''path'' \<mapsto> Str ''/tmp'', ''status'' \<mapsto> Str ''stashed'',
              ''returncode'' \<mapsto> Str [], ''stdout'' \<mapsto> Str [], ''stderr'' \<mapsto> Str [],
              ''start'' \<mapsto> Str [], ''end'' \<mapsto> Str [], ''depd'' \<mapsto> Keys [- 1]] \<and>
   next_key (snd (restart 0 done_state)) = 3 \<and>
   map_of (queue (snd (restart 0 done_state))) 0 = Some (example_task ''done'' [- 1]) \<and>
   fst (restart 0 done_state) = Inr (Bool True)"
proof -
  have h: "store_ok (queue done_state)"
    by (simp add: done_state_def store_ok_def task_ok_def example_task_def)
  have a: "\<not> restartable (queue done_state) 1"
    by (simp add: done_state_def restartable_def example_task_def)
  have b: "map_of (queue done_state) 0 = Some (example_task ''done'' [- 1])"
    "restartable (queue done_state) 0" "keys_below done_state"
    "example_task ''done'' [- 1] ''command'' = Some (Str ''ls'')"
    "example_task ''done'' [- 1] ''path'' = Some (Str ''/tmp'')"
    "Open_wb \<notin> faults done_state \<and> Close_wb \<notin> faults done_state"
    "next_key done_state = 2"
    by (simp_all add: done_state_def restartable_def example_task_def keys_below_def)
  show ?thesis
    using h a b restart_effect[OF h, of 1] restart_effect[OF h, of 0]
    by simp
qed


lemma switch_success:
  assumes "map_of (queue s) a = Some ta" "map_of (queue s) b = Some tb"
    "ta ''status'' \<in> {Some (Str ''queued''), Some (Str ''stashed'')}"
    "tb ''status'' \<in> {Some (Str ''queued''), Some (Str ''stashed'')}"
  shows "switch a b s =
     and_then (write_q (s\<lparr>queue := AList.update a tb (AList.update b ta (queue s))\<rparr>))
       (\<lambda>s'. (Inr (Bool True), s'))"
  using assms by (auto simp: switch_def allowed_states_def)

lemma switch_success_map:
  assumes "map_of (queue s) a = Some ta" "map_of (queue s) b = Some tb"
    "ta ''status'' \<in> {Some (Str ''queued''), Some (Str ''stashed'')}"
    "tb ''status'' \<in> {Some (Str ''queued''), Some (Str ''stashed'')}"
  shows "map_of (queue (snd (switch a b s))) = (map_of (queue s))(b \<mapsto> ta, a \<mapsto> tb)"
  by (simp add: switch_success[OF assms] and_then_snd_ret write_q_keeps update_conv')

text \<open>
  Claim C5. On a store of the specification \<open>switch(a, b)\<close> returns False and changes
  nothing unless both keys are present with status queued or stashed. When they are,
  the two records are exchanged between the keys, every other key keeps its record,
  the call returns True when the file could be opened and closed, and a second
  \<open>switch(a, b)\<close>
  brings back the original assignment of records to keys.
\<close>

theorem switch_effect:
  assumes "store_ok (queue s)"
  shows "(\<not> (switchable (queue s) a \<and> switchable (queue s) b) \<longrightarrow>
       switch a b s = (Inr (Bool False), s)) \<and>
    (switchable (queue s) a \<and> switchable (queue s) b \<longrightarrow>
       map_of (queue (snd (switch a b s))) a = map_of (queue s) b \<and>
       map_of (queue (snd (switch a b s))) b = map_of (queue s) a \<and>
       (\<forall>k. k \<noteq> a \<and> k \<noteq> b \<longrightarrow>
          map_of (queue (snd (switch a b s))) k = map_of (queue s) k) \<and>
       next_key (snd (switch a b s)) = next_key s \<and>
       (Open_wb \<notin> faults s \<and> Close_wb \<notin> faults s \<longrightarrow>
          fst (switch a b s) = Inr (Bool True)) \<and>
       map_of (queue (snd (switch a b (snd (switch a b s))))) = map_of (queue s))"
proof (intro conjI impI)
  assume ns: "\<not> (switchable (queue s) a \<and> switchable (queue s) b)"
  have st: "\<And>k t. map_of (queue s) k = Some t \<Longrightarrow> \<exists>v. t ''status'' = Some v"
    using assms store_ok_lookup by (fastforce simp: task_ok_def)
  show "switch a b s = (Inr (Bool False), s)"
  proof (cases "map_of (queue s) a")
    case None
    then show ?thesis by (simp add: switch_def)
  next
    case a: (Some ta)
    show ?thesis
    proof (cases "map_of (queue s) b")
      case None
      then show ?thesis using a by (simp add: switch_def)
    next
      case b: (Some tb)
      from st[OF a] st[OF b] obtain va vb where
        "ta ''status'' = Some va" "tb ''status'' = Some vb" by blast
      then show ?thesis using a b ns
        by (auto simp: switch_def switchable_def allowed_states_def)
    qed
  qed
next
  assume sw: "switchable (queue s) a \<and> switchable (queue s) b"
  then obtain ta tb where
    a: "map_of (queue s) a = Some ta" and b: "map_of (queue s) b = Some tb"
    and sa: "ta ''status'' \<in> {Some (Str ''queued''), Some (Str ''stashed'')}"
    and sb: "tb ''status'' \<in> {Some (Str ''queued''), Some (Str ''stashed'')}"
    by (auto simp: switchable_def split: option.splits)
  note m = switch_success_map[OF a b sa sb]
  have same: "a = b \<Longrightarrow> ta = tb" using a b by simp
  show "map_of (queue (snd (switch a b s))) a = map_of (queue s) b"
    using b by (simp add: m)
  show "map_of (queue (snd (switch a b s))) b = map_of (queue s) a"
    using a b by (auto simp: m)
  show "\<forall>k. k \<noteq> a \<and> k \<noteq> b \<longrightarrow>
          map_of (queue (snd (switch a b s))) k = map_of (queue s) k"
    by (simp add: m)
  show "next_key (snd (switch a b s)) = next_key s"
    by (simp add: switch_success[OF a b sa sb] and_then_snd_ret write_q_keeps)
  show "Open_wb \<notin> faults s \<and> Close_wb \<notin> faults s \<Longrightarrow>
      fst (switch a b s) = Inr (Bool True)"
    by (simp add: switch_success[OF a b sa sb] and_then_fst_ret write_q_fst)
  let ?s' = "snd (switch a b s)"
  have a': "map_of (queue ?s') a = Some tb" by (simp add: m)
  have b': "map_of (queue ?s') b = Some ta" using same by (auto simp: m)
  have "map_of (queue (snd (switch a b ?s'))) = (map_of (queue ?s'))(b \<mapsto> tb, a \<mapsto> ta)"
    by (rule switch_success_map[OF a' b' sb sa])
  also have "\<dots> = map_of (queue s)"
    using a b by (auto simp: m fun_eq_iff)
  finally show "map_of (queue (snd (switch a b (snd (switch a b s))))) = map_of (queue s)" .
qed

theorem switch_effect_witness:
  "store_ok (queue example_state) \<and>
   \<not> (switchable (queue example_state) 0 \<and> switchable (queue example_state) 1) \<and>
   switch 0 1 example_state = (Inr (Bool False), example_state) \<and>
   switchable (queue example_state) 1 \<and> switchable (queue example_state) 2 \<and>
   map_of (queue (snd (switch 1 2 example_state))) 1 = map_of (queue example_state) 2 \<and>
   map_of (queue (snd (switch 1 2 example_state))) 2 = map_of (queue example_state) 1 \<and>
   fst (switch 1 2 example_state) = Inr (Bool True) \<and>
   map_of (queue (snd (switch 1 2 (snd (switch 1 2 example_state))))) =
     map_of (queue example_state)"
proof -
  have h: "store_ok (queue example_state)"
    using example_store_ok by (simp add: example_state_def)
  have a: "\<not> (switchable (queue example_state) 0 \<and> switchable (queue example_state) 1)"
    "switchable (queue example_state) 1 \<and> switchable (queue example_state) 2"
    "Open_wb \<notin> faults example_state \<and> Close_wb \<notin> faults example_state"
    by (simp_all add: example_state_def example_store_def switchable_def example_task_def)
  show ?thesis
    using h a switch_effect[OF h, of 0 1] switch_effect[OF h, of 1 2]
    by blast
qed

section \<open>The allocator invariant\<close>

lemma keys_below_iff: "keys_below s \<longleftrightarrow> (\<forall>k\<in>fst ` set (queue s). k < next_key s)"
  by (auto simp: keys_below_def list_all_iff)

lemma keys_below_mono:
  assumes "keys_below s" "fst ` set (queue s') \<subseteq> fst ` set (queue s)"
    "next_key s \<le> next_key s'"
  shows "keys_below s'"
  unfolding keys_below_iff
proof
  fix k assume "k \<in> fst ` set (queue s')"
  then have "k \<in> fst ` set (queue s)" using assms(2) by blast
  then have "k < next_key s" using assms(1) unfolding keys_below_iff by blast
  then show "k < next_key s'" using assms(3) by simp
qed

lemma keys_below_grow:
  assumes "keys_below s"
    "fst ` set (queue s') \<subseteq> insert (next_key s) (fst ` set (queue s))"
    "next_key s < next_key s'"
  shows "keys_below s'"
  unfolding keys_below_iff
proof
  fix k assume "k \<in> fst ` set (queue s')"
  then have "k = next_key s \<or> k \<in> fst ` set (queue s)" using assms(2) by blast
  then have "k \<le> next_key s" using assms(1) unfolding keys_below_iff by fastforce
  then show "k < next_key s'" using assms(3) by simp
qed

lemma update_keys_set: "fst ` set (AList.update k v q) = insert k (fst ` set q)"
  using dom_update[of k v q] by (simp add: dom_map_of_conv_image_fst)

lemma delete_keys_subset: "fst ` set (AList.delete k q) \<subseteq> fst ` set q"
  by (auto simp: AList.delete_eq)

lemma clean_items_keys: "map fst (snd (clean_items q)) = map fst q"
  by (induction q rule: clean_items.induct) (auto split: option.splits prod.splits)

lemma clear_loop_keys: "fst ` set (snd (clear_loop keys q)) \<subseteq> fst ` set q"
proof (induction keys arbitrary: q)
  case Nil
  then show ?case by simp
next
  case (Cons key keys)
  show ?case
  proof (cases "map_of q key")
    case None
    then show ?thesis by simp
  next
    case (Some item)
    show ?thesis
    proof (cases "item ''status''")
      case None
      then show ?thesis using Some by simp
    next
      case (Some v)
      have "fst ` set (snd (clear_loop keys (AList.delete key q))) \<subseteq> fst ` set q"
        using Cons.IH[of "AList.delete key q"] delete_keys_subset[of key q] by blast
      then show ?thesis using Some \<open>map_of q key = Some item\<close> Cons.IH[of q] by simp
    qed
  qed
qed

lemma add_new_keys_set:
  "fst ` set (queue (snd (add_new c h s))) = insert (next_key s) (fst ` set (queue s))"
  using arg_cong[OF add_new_keys[of c h s], of set] by (simp add: update_keys_set)

lemma add_new_keys_below: "keys_below s \<Longrightarrow> keys_below (snd (add_new c h s))"
  by (rule keys_below_grow[of s]) (simp_all add: add_new_keys_set add_new_next_key)

lemma remove_keys_below: "keys_below s \<Longrightarrow> keys_below (snd (remove k s))"
  by (rule keys_below_mono[of s])
     (simp_all add: remove_def and_then_snd_ret write_q_keeps delete_keys_subset)

lemma restart_cases:
  "snd (restart k s) = s \<or>
   (\<exists>e. queue (snd (restart k s)) = queue (snd (add_new e [] s)) \<and>
        next_key (snd (restart k s)) = next_key (snd (add_new e [] s)))"
  by (auto simp: restart_def and_then_snd_ret and_then_write_keeps split: option.splits)

lemma restart_keys_below: "keys_below s \<Longrightarrow> keys_below (snd (restart k s))"
proof -
  assume kb: "keys_below s"
  from restart_cases[of k s] show ?thesis
  proof
    assume "snd (restart k s) = s"
    then show ?thesis using kb by simp
  next
    assume "\<exists>e. queue (snd (restart k s)) = queue (snd (add_new e [] s)) \<and>
        next_key (snd (restart k s)) = next_key (snd (add_new e [] s))"
    then obtain e where e: "queue (snd (restart k s)) = queue (snd (add_new e [] s))"
      "next_key (snd (restart k s)) = next_key (snd (add_new e [] s))" by blast
    show ?thesis
      by (rule keys_below_mono[OF add_new_keys_below[OF kb, of e "[]"]]) (simp_all add: e)
  qed
qed

lemma restart_next_key: "next_key s \<le> next_key (snd (restart k s))"
  using restart_cases[of k s] by (auto simp: add_new_next_key)

lemma switch_cases:
  "snd (switch a b s) = s \<or>
   (\<exists>ta tb. map_of (queue s) a = Some ta \<and> map_of (queue s) b = Some tb \<and>
      queue (snd (switch a b s)) = AList.update a tb (AList.update b ta (queue s)) \<and>
      next_key (snd (switch a b s)) = next_key s)"
  by (auto simp: switch_def and_then_snd_ret write_q_keeps split: option.splits)

lemma switch_keys_below: "keys_below s \<Longrightarrow> keys_below (snd (switch a b s))"
proof -
  assume kb: "keys_below s"
  from switch_cases[of a b s] show ?thesis
  proof
    assume "snd (switch a b s) = s"
    then show ?thesis using kb by simp
  next
    assume "\<exists>ta tb. map_of (queue s) a = Some ta \<and> map_of (queue s) b = Some tb \<and>
      queue (snd (switch a b s)) = AList.update a tb (AList.update b ta (queue s)) \<and>
      next_key (snd (switch a b s)) = next_key s"
    then obtain ta tb where a: "map_of (queue s) a = Some ta"
      and b: "map_of (queue s) b = Some tb"
      and q: "queue (snd (switch a b s)) = AList.update a tb (AList.update b ta (queue s))"
      and n: "next_key (snd (switch a b s)) = next_key s" by blast
    have "a \<in> fst ` set (queue s)" "b \<in> fst ` set (queue s)"
      using a b by (force dest: map_of_SomeD)+
    then have "fst ` set (queue (snd (switch a b s))) \<subseteq> fst ` set (queue s)"
      by (auto simp: q update_keys_set)
    then show ?thesis using n by (intro keys_below_mono[OF kb]) simp_all
  qed
qed

lemma switch_next_key: "next_key (snd (switch a b s)) = next_key s"
  using switch_cases[of a b s] by auto

lemma clear_snd:
  "queue (snd (clear s)) = snd (clear_loop (map fst (queue s)) (queue s)) \<and>
   next_key (snd (clear s)) = next_key s"
  by (cases "clear_loop (map fst (queue s)) (queue s)")
     (simp add: clear_def and_then_write_keeps)

lemma clear_keys_below: "keys_below s \<Longrightarrow> keys_below (snd (clear s))"
  by (rule keys_below_mono[of s]) (simp_all add: clear_snd clear_loop_keys)

lemma reset_snd: "queue (snd (reset s)) = [] \<and> next_key (snd (reset s)) = 0"
  by (simp add: reset_def write_q_keeps)

lemma clean_snd:
  "map fst (queue (snd (clean s))) = map fst (queue s) \<and>
   next_key (snd (clean s)) = next_key s"
  using clean_items_keys[of "queue s"]
  by (cases "clean_items (queue s)") (simp add: clean_def)

lemma clean_keys_below: "keys_below s \<Longrightarrow> keys_below (snd (clean s))"
  by (simp add: keys_below_def clean_snd)

lemma exec_keys_below: "keys_below s \<Longrightarrow> keys_below (snd (exec x s))"
  by (cases x)
     (simp_all add: add_new_keys_below remove_keys_below restart_keys_below
        switch_keys_below clear_keys_below clean_keys_below,
      simp add: keys_below_def reset_snd)

lemma exec_next_key: "x \<noteq> Reset \<Longrightarrow> next_key s \<le> next_key (snd (exec x s))"
  by (cases x)
     (simp_all add: add_new_next_key remove_next_key restart_next_key switch_next_key
        clear_snd clean_snd)

lemma init_snd:
  assumes "fst (init s) = Inr v"
  shows "next_key (snd (init s)) =
      (if queue (snd (init s)) = [] then 0
       else Max (set (map fst (queue (snd (init s))))) + 1)"
proof -
  obtain r s1 where rc: "and_then (read s) clean = (r, s1)" by (cases "and_then (read s) clean")
  show ?thesis
  proof (cases r)
    case (Inl e)
    then show ?thesis using assms rc by (simp add: init_def and_then_def)
  next
    case (Inr w)
    then show ?thesis using rc by (simp add: init_def and_then_def)
  qed
qed

lemma max_plus_one_above:
  "next_key s = (if queue s = [] then 0 else Max (set (map fst (queue s))) + 1) \<Longrightarrow>
   keys_below s"
proof -
  assume n: "next_key s = (if queue s = [] then 0 else Max (set (map fst (queue s))) + 1)"
  show ?thesis
  proof (cases "queue s = []")
    case True
    then show ?thesis by (simp add: keys_below_def)
  next
    case False
    have "k \<le> Max (set (map fst (queue s)))" if "k \<in> set (map fst (queue s))" for k
      using that by (intro Max_ge) auto
    then show ?thesis using n False by (fastforce simp: keys_below_def list_all_iff)
  qed
qed

lemma stored_keys_add_new:
  assumes "keys_below s"
  shows "stored_keys s (snd (add_new c h s)) (new_entry c) = [next_key s]"
proof -
  have fresh: "map_of (queue s) (next_key s) = None" using assms by (rule keys_below_fresh)
  then have notin: "next_key s \<notin> set (map fst (queue s))"
    by (simp add: map_of_eq_None_iff)
  have keys: "map fst (queue (snd (add_new c h s))) = map fst (queue s) @ [next_key s]"
    using notin by (simp add: add_new_keys update_keys)
  have old: "filter (\<lambda>k. map_of (queue s) k = None \<and>
        map_of (queue (snd (add_new c h s))) k = Some (new_entry c)) (map fst (queue s)) = []"
    by (auto simp: filter_empty_conv map_of_eq_None_iff)
  show ?thesis
    using fresh old by (simp add: stored_keys_def keys add_new_lookup)
qed

lemma assigned_keys_lower:
  assumes "keys_below s" "list_all add_or_remove ops"
  shows "list_all (\<lambda>k. next_key s \<le> k) (assigned_keys ops s)"
  using assms
proof (induction ops arbitrary: s)
  case Nil
  then show ?case by simp
next
  case (Cons x ops)
  then have rest: "list_all add_or_remove ops" by simp
  show ?case
  proof (cases x)
    case (Add_new c h)
    have kb: "keys_below (snd (add_new c h s))" using Cons.prems(1) by (rule add_new_keys_below)
    have "list_all (\<lambda>k. next_key s + 1 \<le> k) (assigned_keys ops (snd (add_new c h s)))"
      using Cons.IH[OF kb rest] by (simp add: add_new_next_key)
    then have "list_all (\<lambda>k. next_key s \<le> k) (assigned_keys ops (snd (add_new c h s)))"
      unfolding list_all_iff by fastforce
    then show ?thesis using Add_new by (simp add: stored_keys_add_new[OF Cons.prems(1)])
  next
    case (Remove k)
    have kb: "keys_below (snd (remove k s))" using Cons.prems(1) by (rule remove_keys_below)
    show ?thesis using Remove Cons.IH[OF kb rest] by (simp add: remove_next_key)
  qed (use Cons.prems in \<open>simp_all add: add_or_remove_def\<close>)
qed

text \<open>
  Claim C2. From a state whose keys are below \<open>next_key\<close>, in every run of
  \<open>add_new\<close> and \<open>remove\<close> calls each add puts its entry under exactly one key that
  was not in the store, and these keys, read off the store in the order of the adds, are
  strictly increasing, never repeated and never below the \<open>next_key\<close> of the start.
\<close>

theorem assigned_keys_increasing:
  assumes "keys_below s" "list_all add_or_remove ops"
  shows "sorted_wrt (<) (assigned_keys ops s) \<and> distinct (assigned_keys ops s) \<and>
    length (assigned_keys ops s) = length (filter is_add ops) \<and>
    list_all (\<lambda>k. next_key s \<le> k) (assigned_keys ops s)"
  using assms
proof (induction ops arbitrary: s)
  case Nil
  then show ?case by simp
next
  case (Cons x ops)
  then have rest: "list_all add_or_remove ops" by simp
  note low = assigned_keys_lower[OF Cons.prems]
  show ?case
  proof (cases x)
    case (Add_new c h)
    have kb: "keys_below (snd (add_new c h s))" using Cons.prems(1) by (rule add_new_keys_below)
    have "list_all (\<lambda>k. next_key s + 1 \<le> k) (assigned_keys ops (snd (add_new c h s)))"
      using assigned_keys_lower[OF kb rest] by (simp add: add_new_next_key)
    then have above: "\<forall>k\<in>set (assigned_keys ops (snd (add_new c h s))). next_key s < k"
      by (auto simp: list_all_iff)
    show ?thesis
      using Add_new Cons.IH[OF kb rest] above low
      by (auto simp: stored_keys_add_new[OF Cons.prems(1)] is_add_def)
  next
    case (Remove k)
    have kb: "keys_below (snd (remove k s))" using Cons.prems(1) by (rule remove_keys_below)
    show ?thesis using Remove Cons.IH[OF kb rest] low by (simp add: is_add_def remove_next_key)
  qed (use Cons.prems in \<open>simp_all add: add_or_remove_def\<close>)
qed

theorem assigned_keys_increasing_witness:
  "keys_below empty_state \<and>
   list_all add_or_remove
     [Add_new example_command [], Remove 0, Add_new example_command []] \<and>
   assigned_keys [Add_new example_command [], Remove 0, Add_new example_command []]
     empty_state = [0, 1] \<and>
   sorted_wrt (<)
     (assigned_keys [Add_new example_command [], Remove 0, Add_new example_command []]
        empty_state) \<and>
   distinct
     (assigned_keys [Add_new example_command [], Remove 0, Add_new example_command []]
        empty_state) \<and>
   length
     (assigned_keys [Add_new example_command [], Remove 0, Add_new example_command []]
        empty_state) =
   length (filter is_add [Add_new example_command [], Remove 0, Add_new example_command []])"
proof -
  have a: "keys_below empty_state" by (simp add: keys_below_def empty_state_def)
  have b: "list_all add_or_remove
     [Add_new example_command [], Remove 0, Add_new example_command []]"
    by (simp add: add_or_remove_def)
  have c: "assigned_keys [Add_new example_command [], Remove 0, Add_new example_command []]
     empty_state = [0, 1]"
    by (simp add: stored_keys_def add_new_lookup add_new_keys add_new_keeps add_new_next_key
        remove_def and_then_snd_ret write_q_keeps empty_state_def)
  show ?thesis using a b c assigned_keys_increasing[OF a b] by simp
qed

text \<open>
  Claim C9, as the code has it. Every key in the store is below \<open>next_key\<close>: each
  operation preserves this, and \<open>__init__\<close> establishes it by setting \<open>next_key\<close>
  to the largest loaded key plus one, or to 0 for an empty store. \<open>add_new\<close> adds
  one to \<open>next_key\<close>, \<open>reset\<close> sets it back to 0, and no other operation
  lowers it.
\<close>

theorem next_key_invariant:
  "(keys_below s \<longrightarrow> keys_below (snd (exec x s))) \<and>
   (x \<noteq> Reset \<longrightarrow> next_key s \<le> next_key (snd (exec x s))) \<and>
   next_key (snd (exec (Add_new c h) s)) = next_key s + 1 \<and>
   next_key (snd (exec Reset s)) = 0 \<and>
   (fst (init s) = Inr NoneVal \<longrightarrow>
      keys_below (snd (init s)) \<and>
      next_key (snd (init s)) =
        (if queue (snd (init s)) = [] then 0
         else Max (set (map fst (queue (snd (init s))))) + 1))"
  using exec_keys_below[of s x] exec_next_key[of x s] init_snd[of s NoneVal]
    max_plus_one_above[of "snd (init s)"]
  by (simp add: add_new_next_key reset_snd)

theorem next_key_invariant_witness:
  "keys_below example_state \<and> keys_below (snd (exec (Remove 1) example_state)) \<and>
   Remove 1 \<noteq> Reset \<and>
   next_key example_state \<le> next_key (snd (exec (Remove 1) example_state)) \<and>
   fst (init saved_state) = Inr NoneVal \<and> keys_below (snd (init saved_state)) \<and>
   next_key (snd (init saved_state)) =
        (if queue (snd (init saved_state)) = [] then 0
         else Max (set (map fst (queue (snd (init saved_state))))) + 1)"
proof -
  have a: "keys_below example_state"
    by (simp add: keys_below_def example_state_def example_store_def)
  have b: "fst (init saved_state) = Inr NoneVal"
    by (simp add: init_def saved_state_def read_def and_then_def clean_def
        example_task_def crashed_def)
  show ?thesis
    using a b next_key_invariant[of example_state "Remove 1"]
      next_key_invariant[of saved_state]
    by simp
qed

text \<open>
  Claim C9 as the specification words it fails: after \<open>add_new\<close> has assigned key 0,
  \<open>reset\<close> puts \<open>next_key\<close> back to 0, which is not above the key assigned.
\<close>

theorem next_key_reset_counterexample:
  "assigned_keys [Add_new example_command []] empty_state = [0] \<and>
   \<not> 0 < next_key (snd (exec Reset (snd (exec (Add_new example_command []) empty_state))))"
  by (simp add: reset_snd stored_keys_def add_new_lookup add_new_keys empty_state_def)


section \<open>Records without a dependency field\<close>

lemma depd_loop_update:
  assumes "map_of q k = Some t" "t' ''status'' = t ''status''"
  shows "depd_loop (AList.update k t' q) ds ok = depd_loop q ds ok"
proof (induction ds arbitrary: ok)
  case Nil
  then show ?case by simp
next
  case (Cons d ds)
  show ?case
  proof (cases "d = k")
    case True
    then show ?thesis using assms Cons by (simp add: update_conv' cong: option.case_cong if_cong)
  next
    case False
    then show ?thesis using Cons by (simp add: update_conv' cong: option.case_cong if_cong)
  qed
qed

lemma depd_ok_update:
  assumes "map_of q k = Some t" "t ''depd'' = None"
  shows "depd_ok (AList.update k (t(''depd'' \<mapsto> Keys [- 1])) q) k' = depd_ok q k'"
proof (cases "k' = k")
  case True
  then show ?thesis using assms by (simp add: depd_ok_def update_conv')
next
  case False
  have "depd_loop (AList.update k (t(''depd'' \<mapsto> Keys [- 1])) q) ds ok = depd_loop q ds ok"
    for ds ok
    by (rule depd_loop_update[OF assms(1)]) simp
  then show ?thesis using False
    by (simp add: depd_ok_def update_conv' cong: option.case_cong val.case_cong if_cong)
qed

lemma next_loop_same:
  assumes "\<And>key. map_option (\<lambda>item. item ''status'') (map_of q' key) =
              map_option (\<lambda>item. item ''status'') (map_of q key)"
    and "\<And>key. depd_ok q' key = depd_ok q key"
  shows "next_loop q' keys sm = next_loop q keys sm"
proof (induction keys arbitrary: sm)
  case Nil
  then show ?case by simp
next
  case (Cons key keys)
  show ?case
  proof (cases "map_of q key")
    case None
    then have "map_of q' key = None" using assms(1)[of key] by simp
    then show ?thesis using None by simp
  next
    case (Some item)
    then obtain item' where i': "map_of q' key = Some item'"
      and st: "item' ''status'' = item ''status''"
      using assms(1)[of key] by (cases "map_of q' key") auto
    show ?thesis
    proof (cases "item ''status''")
      case None
      then show ?thesis using Some i' st by simp
    next
      case v: (Some v)
      show ?thesis
      proof (cases "depd_ok q key")
        case (Inl e)
        then show ?thesis using Some i' st v assms(2)[of key] Cons.IH by simp
      next
        case (Inr b)
        then show ?thesis using Some i' st v assms(2)[of key] Cons.IH
          by (cases sm) simp_all
      qed
    qed
  qed
qed

lemma next_loop_update:
  assumes "map_of q k = Some t" "t ''depd'' = None"
  shows "next_loop (AList.update k (t(''depd'' \<mapsto> Keys [- 1])) q) keys sm = next_loop q keys sm"
proof (rule next_loop_same)
  fix key
  show "map_option (\<lambda>item. item ''status'')
          (map_of (AList.update k (t(''depd'' \<mapsto> Keys [- 1])) q) key) =
        map_option (\<lambda>item. item ''status'') (map_of q key)"
    using assms(1) by (simp add: update_conv')
  show "depd_ok (AList.update k (t(''depd'' \<mapsto> Keys [- 1])) q) key = depd_ok q key"
    by (rule depd_ok_update[OF assms])
qed

text \<open>
  Claim C10. A record whose dictionary has no \<open>depd\<close> field passes the dependency
  check of \<open>next()\<close>, as it does once the sentinel is written into it; writing the
  sentinel into it does not change what \<open>next()\<close> returns or raises; and on a store of
  the specification such a record, when queued, is eligible, so \<open>next()\<close> returns
  its key or a smaller one.
\<close>

theorem missing_depd_like_sentinel:
  assumes "map_of q k = Some t" "t ''depd'' = None"
  shows "depd_ok q k = Inr True \<and>
    depd_ok (AList.update k (t(''depd'' \<mapsto> Keys [- 1])) q) k = Inr True \<and>
    next_q (AList.update k (t(''depd'' \<mapsto> Keys [- 1])) q) = next_q q \<and>
    (store_ok q \<and> t ''status'' = Some (Str ''queued'') \<longrightarrow>
       eligible q k \<and> (\<exists>k'. next_q q = Inr (Some k') \<and> k' \<le> k))"
proof (intro conjI impI)
  show d: "depd_ok q k = Inr True" using assms by (simp add: depd_ok_def)
  show "depd_ok (AList.update k (t(''depd'' \<mapsto> Keys [- 1])) q) k = Inr True"
    using depd_ok_update[OF assms, of k] d by simp
  have "k \<in> fst ` set q" using assms(1) by (force dest: map_of_SomeD)
  then have "map fst (AList.update k (t(''depd'' \<mapsto> Keys [- 1])) q) = map fst q"
    by (simp add: update_keys)
  then show "next_q (AList.update k (t(''depd'' \<mapsto> Keys [- 1])) q) = next_q q"
    by (simp add: next_q_def next_loop_update[OF assms])
next
  assume h: "store_ok q \<and> t ''status'' = Some (Str ''queued'')"
  then show el: "eligible q k" using assms by (simp add: eligible_def)
  from h next_q_least[of q] obtain r where r: "next_q q = Inr r"
    "(case r of
        None \<Rightarrow> (\<forall>k. \<not> eligible q k)
      | Some k \<Rightarrow> eligible q k \<and> (\<forall>k'. eligible q k' \<longrightarrow> k \<le> k'))" by blast
  show "\<exists>k'. next_q q = Inr (Some k') \<and> k' \<le> k"
    using r el by (cases r) auto
qed

theorem missing_depd_like_sentinel_witness:
  "map_of legacy_store 1 = Some legacy_task \<and> legacy_task ''depd'' = None \<and>
   store_ok legacy_store \<and> legacy_task ''status'' = Some (Str ''queued'') \<and>
   depd_ok legacy_store 1 = Inr True \<and>
   next_q (AList.update 1 (legacy_task(''depd'' \<mapsto> Keys [- 1])) legacy_store) =
     next_q legacy_store \<and>
   eligible legacy_store 1 \<and> (\<exists>k'. next_q legacy_store = Inr (Some k') \<and> k' \<le> 1)"
proof -
  have a: "map_of legacy_store 1 = Some legacy_task" "legacy_task ''depd'' = None"
    by (simp_all add: legacy_store_def legacy_task_def)
  have b: "store_ok legacy_store \<and> legacy_task ''status'' = Some (Str ''queued'')"
    by (simp add: legacy_store_def legacy_task_def store_ok_def task_ok_def example_task_def)
  show ?thesis using a b missing_depd_like_sentinel[OF a] by blast
qed

end
